theory Spec2Isabelle
  imports Main "HOL-Library.Multiset"
begin

section \<open>Python strings and the library calls the viewer uses\<close>

text \<open>
  A Python \<open>str\<close> is modelled as a \<open>string\<close> holding the UTF-8 bytes of its text. A
  character of the \<open>str\<close> is a chunk of bytes, a byte with the continuation bytes
  that follow it; \<open>len\<close>, slicing, \<open>splitlines\<close> and the regular expressions work on
  chunks. The test \<open>in\<close> is made on the bytes, where it agrees with the test on
  characters. What depends on the Unicode tables of the interpreter (\<open>str.lower\<close>,
  and the classes \<open>\w\<close>, \<open>\s\<close> and \<open>\d\<close> outside ASCII) is a parameter of the model,
  given with the record \<open>externals\<close> below. The non-ASCII literals of the source are
  written as their UTF-8 bytes.
\<close>

definition is_continuation :: "char \<Rightarrow> bool" where
  \<comment> \<open>a byte \<open>10xxxxxx\<close>, which continues a character\<close>
  "is_continuation c = (128 \<le> (of_char c :: int) \<and> (of_char c :: int) < 192)"

function cp_chunks :: "string \<Rightarrow> string list" where
  \<comment> \<open>the characters of a \<open>str\<close>, each as its bytes\<close>
  "cp_chunks [] = []"
| "cp_chunks (c # cs) = (c # takeWhile is_continuation cs) # cp_chunks (dropWhile is_continuation cs)"
  by pat_completeness auto
termination
  by (relation "measure length") (auto simp: length_dropWhile_le less_Suc_eq_le)

definition cp_length :: "string \<Rightarrow> nat" where
  \<comment> \<open>\<open>len(s)\<close>\<close>
  "cp_length s = length (cp_chunks s)"

definition cp_take :: "nat \<Rightarrow> string \<Rightarrow> string" where
  \<comment> \<open>\<open>s[:n]\<close>\<close>
  "cp_take n s = concat (take n (cp_chunks s))"

definition is_upper :: "char \<Rightarrow> bool" where
  "is_upper c = (65 \<le> (of_char c :: int) \<and> (of_char c :: int) \<le> 90)"

definition is_digit :: "char \<Rightarrow> bool" where
  \<comment> \<open>the ASCII part of \<open>\d\<close>\<close>
  "is_digit c = (48 \<le> (of_char c :: int) \<and> (of_char c :: int) \<le> 57)"

definition is_word :: "char \<Rightarrow> bool" where
  \<comment> \<open>the ASCII part of \<open>\w\<close>: letters, digits and the underscore\<close>
  "is_word c = (let n = (of_char c :: int) in
     (48 \<le> n \<and> n \<le> 57) \<or> (65 \<le> n \<and> n \<le> 90) \<or> (97 \<le> n \<and> n \<le> 122) \<or> n = 95)"

definition is_space :: "char \<Rightarrow> bool" where
  \<comment> \<open>the ASCII part of \<open>\s\<close> of a \<open>str\<close> pattern: tab to carriage return, the four
      separators, space\<close>
  "is_space c = (let n = (of_char c :: int) in
     (9 \<le> n \<and> n \<le> 13) \<or> (28 \<le> n \<and> n \<le> 31) \<or> n = 32)"

definition lower_char :: "char \<Rightarrow> char" where
  "lower_char c = (if is_upper c then char_of ((of_char c :: int) + 32) else c)"

definition ascii_lower :: "string \<Rightarrow> string" where
  \<comment> \<open>\<open>str.lower()\<close> on ASCII text: only the letters A to Z change\<close>
  "ascii_lower s = map lower_char s"

fun py_in :: "string \<Rightarrow> string \<Rightarrow> bool" where
  \<comment> \<open>\<open>needle in hay\<close> on strings: a contiguous substring test\<close>
  "py_in needle [] = (needle = [])"
| "py_in needle (c # cs) = (take (length needle) (c # cs) = needle \<or> py_in needle cs)"

fun digit_chars :: "nat \<Rightarrow> nat \<Rightarrow> string" where
  \<comment> \<open>the decimal digits of a number, most significant first; the first argument bounds
      the number of digits\<close>
  "digit_chars 0 n = []"
| "digit_chars (Suc k) n =
     (if n < 10 then [char_of (48 + n)]
      else digit_chars k (n div 10) @ [char_of (48 + n mod 10)])"

definition str_of_nat :: "nat \<Rightarrow> string" where
  \<comment> \<open>\<open>str(n)\<close> / \<open>f"{n}"\<close> for a non-negative integer\<close>
  "str_of_nat n = digit_chars (Suc n) n"

definition nat_of_digits :: "string \<Rightarrow> nat" where
  \<comment> \<open>the number written by a string of decimal digits\<close>
  "nat_of_digits s = foldl (\<lambda>a c. 10 * a + ((of_char c :: nat) - 48)) 0 s"

fun join :: "string \<Rightarrow> string list \<Rightarrow> string" where
  \<comment> \<open>\<open>sep.join(xs)\<close>\<close>
  "join sep [] = []"
| "join sep [x] = x"
| "join sep (x # y # ys) = x @ sep @ join sep (y # ys)"

definition is_linebreak :: "string \<Rightarrow> bool" where
  \<comment> \<open>the characters at which \<open>str.splitlines\<close> ends a line, carriage return apart:
      line feed, vertical tab, form feed, the file, group and record separators, next
      line (U+0085), line separator (U+2028) and paragraph separator (U+2029)\<close>
  "is_linebreak c = (c \<in> set [[CHR 0x0A], [CHR 0x0B], [CHR 0x0C], [CHR 0x1C], [CHR 0x1D],
     [CHR 0x1E], [CHR 0xC2, CHR 0x85], [CHR 0xE2, CHR 0x80, CHR 0xA8],
     [CHR 0xE2, CHR 0x80, CHR 0xA9]])"

fun splitlines_from :: "string \<Rightarrow> string list \<Rightarrow> string list" where
  \<comment> \<open>the first argument is the line read so far, the second the characters to read\<close>
  "splitlines_from cur [] = (if cur = [] then [] else [cur])"
| "splitlines_from cur (c # cs) =
     (if c = [CHR 0x0D]
      then (case cs of
              d # ds \<Rightarrow> (if d = [CHR 0x0A] then (cur @ c @ d) # splitlines_from [] ds
                         else (cur @ c) # splitlines_from [] cs)
            | [] \<Rightarrow> [cur @ c])
      else if is_linebreak c then (cur @ c) # splitlines_from [] cs
      else splitlines_from (cur @ c) cs)"

definition splitlines :: "string \<Rightarrow> string list" where
  \<comment> \<open>\<open>content.splitlines(keepends=True)\<close>\<close>
  "splitlines s = splitlines_from [] (cp_chunks s)"

definition py_sorted_reverse :: "('a \<Rightarrow> 'k::linorder) \<Rightarrow> 'a list \<Rightarrow> 'a list" where
  \<comment> \<open>\<open>sorted(xs, key=f, reverse=True)\<close>: the list is reversed, sorted stably in
      ascending order of the key, and reversed again\<close>
  "py_sorted_reverse f xs = rev (sort_key f (rev xs))"

section \<open>Data model\<close>

text \<open>
  \<open>LogInfo\<close>, \<open>NotificationData\<close> and the group dictionaries are used by the viewer
  through the fields below. The type of a notification's \<open>date\<close> is left open: the
  viewer only compares dates, so any linearly ordered type serves.
\<close>

record LogInfo =
  timestamp :: string
  level :: string
  content :: string
  tags :: "string list"

record 'd NotificationData =
  notif_id :: string
  group_id :: string
  date :: 'd
  created_at :: string
  message :: string

record 'd GroupInfo =
  name :: string
  messages :: "'d NotificationData list"

record show_filters =
  error :: bool
  warning :: bool
  debug :: bool
  info :: bool

text \<open>
  What the model takes from outside the source file. The first six fields are the
  functions and constants the viewer imports from its \<open>utils\<close> and \<open>constants\<close>
  modules. The last three stand for the Unicode tables of the interpreter:
  \<open>str_lower\<close> is \<open>str.lower\<close>, and the two predicates say of a character outside
  ASCII, given by its bytes, whether the class \<open>[\w\s]\<close> and the class \<open>\d\<close> match it.
  All are parameters: every theorem below holds for whatever they compute.
\<close>

record 'd externals =
  should_show_log :: "string \<Rightarrow> show_filters \<Rightarrow> bool"
  parse_log_line :: "string \<Rightarrow> bool \<Rightarrow> LogInfo"
  parse_notifications :: "string \<Rightarrow> 'd NotificationData list"
  organize_notifications_by_group ::
    "'d NotificationData list \<Rightarrow> (string \<times> string) list \<Rightarrow> (string \<times> 'd GroupInfo) list"
  GROUP_COLLAPSE_THRESHOLD :: int
  LARGE_FILE_THRESHOLD_MB :: nat
  str_lower :: "string \<Rightarrow> string"
  unicode_word_or_space :: "string \<Rightarrow> bool"
  unicode_digit :: "string \<Rightarrow> bool"

definition re_word_or_space :: "'d externals \<Rightarrow> string \<Rightarrow> bool" where
  \<comment> \<open>whether the class \<open>[\w\s]\<close> matches a character\<close>
  "re_word_or_space U c =
     (case c of
        [b] \<Rightarrow> (if (of_char b :: int) < 128 then is_word b \<or> is_space b
                 else unicode_word_or_space U c)
      | _ \<Rightarrow> unicode_word_or_space U c)"

definition re_digit :: "'d externals \<Rightarrow> string \<Rightarrow> bool" where
  \<comment> \<open>whether the class \<open>\d\<close> matches a character\<close>
  "re_digit U c =
     (case c of
        [b] \<Rightarrow> (if (of_char b :: int) < 128 then is_digit b else unicode_digit U c)
      | _ \<Rightarrow> unicode_digit U c)"

fun tag_search_chunks :: "'d externals \<Rightarrow> string list \<Rightarrow> string option" where
  \<comment> \<open>the search of \<open>tag_search\<close> on the characters of the line. The closing bracket is
      outside the class, so the greedy run is the only candidate at each opening
      bracket.\<close>
  "tag_search_chunks U [] = None"
| "tag_search_chunks U (c # cs) =
     (if c = ''[''
      then (let t = takeWhile (re_word_or_space U) cs;
                r = dropWhile (re_word_or_space U) cs
            in if t \<noteq> [] \<and> (case r of [] \<Rightarrow> False | d # _ \<Rightarrow> d = '']'')
               then Some (concat t) else tag_search_chunks U cs)
      else tag_search_chunks U cs)"

definition tag_search :: "'d externals \<Rightarrow> string \<Rightarrow> string option" where
  \<comment> \<open>\<open>re.search(r'\[([\w\s]+)\]', line)\<close>, group 1 of the leftmost match\<close>
  "tag_search U line = tag_search_chunks U (cp_chunks line)"

function sub_digits_chunks :: "'d externals \<Rightarrow> string list \<Rightarrow> string list" where
  "sub_digits_chunks U [] = []"
| "sub_digits_chunks U (c # cs) =
     (if re_digit U c then ''N'' # sub_digits_chunks U (dropWhile (re_digit U) cs)
      else c # sub_digits_chunks U cs)"
  by pat_completeness auto
termination
  by (relation "measure (\<lambda>(U, cs). length cs)") (auto simp: length_dropWhile_le less_Suc_eq_le)

definition sub_digits :: "'d externals \<Rightarrow> string \<Rightarrow> string" where
  \<comment> \<open>\<open>re.sub(r'\d+', 'N', s)\<close>: every maximal run of digits becomes one \<open>N\<close>\<close>
  "sub_digits U s = concat (sub_digits_chunks U (cp_chunks s))"

text \<open>
  The widgets the viewer reads and writes. A dictionary is an association list in
  insertion order. \<open>log_tree_marks\<close> lists the calls of \<open>mark_as_group\<close> of one filter
  pass; \<open>stats_label\<close> and \<open>msg_stats_label\<close> hold the numbers shown in the labels.
  The status bar, the update indicator and the message boxes only paint and are left
  out.
\<close>

record 'd widgets =
  search_var :: string
  show_error :: bool
  show_warning :: bool
  show_debug :: bool
  show_info :: bool
  log_tree_virtual :: bool
  log_tree_logs :: "LogInfo list"
  log_tree_marks :: "(nat \<times> nat) list"
  stats_label :: "nat \<times> nat"
  group_combo_values :: "string list"
  group_combo_text :: string
  msg_search_var :: string
  msg_tree :: "('d \<times> string) list"
  msg_stats_label :: "nat \<times> nat option"

text \<open>
  The viewer object. \<open>file_reads\<close> counts the calls of
  \<open>FileUtils.read_file_with_encoding\<close>, so that "no read is performed" can be stated.
\<close>

record 'd viewer =
  current_logs :: "string list"
  notifications :: "'d NotificationData list"
  groups :: "(string \<times> 'd GroupInfo) list"
  current_displayed_messages :: "'d NotificationData list"
  auto_update :: bool
  last_file_size :: nat
  current_log_file :: "string option"
  collapse_long_lines :: bool
  collapse_repeated_tags :: bool
  group_names :: "(string \<times> string) list"
  widgets :: "'d widgets"
  file_reads :: nat

section \<open>apply\_filter\<close>

record collapse_state =
  filtered_logs :: "LogInfo list"
  filtered_count :: nat
  current_tag :: "string option"
  current_message_pattern :: "string option"
  tag_group_start :: "nat option"
  tag_group :: "LogInfo list"
  tag_count :: nat
  marks :: "(nat \<times> nat) list"

definition truthy :: "string option \<Rightarrow> bool" where
  \<comment> \<open>the truth value of an \<open>Optional[str]\<close>\<close>
  "truthy v = (case v of None \<Rightarrow> False | Some s \<Rightarrow> s \<noteq> [])"

definition FOLDER :: string where
  "FOLDER = [CHR 0xF0, CHR 0x9F, CHR 0x93, CHR 0x81]"

definition SAME_MESSAGE :: string where
  "SAME_MESSAGE = [CHR 0xE5, CHR 0x90, CHR 0x8C, CHR 0xE3, CHR 0x81, CHR 0x98, CHR 0xE3,
     CHR 0x83, CHR 0xA1, CHR 0xE3, CHR 0x83, CHR 0x83, CHR 0xE3, CHR 0x82, CHR 0xBB,
     CHR 0xE3, CHR 0x83, CHR 0xBC, CHR 0xE3, CHR 0x82, CHR 0xB8]"

definition LOGS_SUFFIX :: string where
  "LOGS_SUFFIX = [CHR 0xE4, CHR 0xBB, CHR 0xB6, CHR 0xE3, CHR 0x81, CHR 0xAE, CHR 0xE3,
     CHR 0x83, CHR 0xAD, CHR 0xE3, CHR 0x82, CHR 0xB0]"

definition group_header :: "string option \<Rightarrow> nat \<Rightarrow> LogInfo" where
  \<comment> \<open>the header record built from \<open>current_tag\<close> and \<open>tag_count\<close>\<close>
  "group_header cur n =
     \<lparr>timestamp = [], level = [],
      content = FOLDER @ '' ['' @ (if truthy cur then (case cur of Some t \<Rightarrow> t | None \<Rightarrow> SAME_MESSAGE)
                                   else SAME_MESSAGE)
                @ ''] '' @ str_of_nat n @ '' '' @ LOGS_SUFFIX,
      tags = [''group_header'']\<rparr>"

definition init_state :: collapse_state where
  "init_state = \<lparr>filtered_logs = [], filtered_count = 0, current_tag = None,
     current_message_pattern = None, tag_group_start = None, tag_group = [],
     tag_count = 0, marks = []\<rparr>"

definition search_passes :: "'d externals \<Rightarrow> string \<Rightarrow> string \<Rightarrow> bool" where
  \<comment> \<open>the negation of \<open>search_text and search_text not in line.lower()\<close>\<close>
  "search_passes U search_text line =
     (\<not> (search_text \<noteq> [] \<and> \<not> py_in search_text (str_lower U line)))"

definition get_show_filters :: "'d viewer \<Rightarrow> show_filters" where
  "get_show_filters v = \<lparr>error = show_error (widgets v), warning = show_warning (widgets v),
     debug = show_debug (widgets v), info = show_info (widgets v)\<rparr>"

definition is_same_group :: "string option \<Rightarrow> string \<Rightarrow> collapse_state \<Rightarrow> bool" where
  "is_same_group line_tag content_clean s =
     (if truthy line_tag \<and> line_tag = current_tag s then True
      else if \<not> truthy line_tag \<and> truthy (current_message_pattern s)
              \<and> Some content_clean = current_message_pattern s then True
      else False)"

definition flush_in_loop :: "bool \<Rightarrow> int \<Rightarrow> collapse_state \<Rightarrow> collapse_state" where
  \<comment> \<open>the branch of the loop that emits the previous group\<close>
  "flush_in_loop is_virtual threshold s =
     (if int (tag_count s) \<ge> threshold
      then (let logs1 = filtered_logs s @ [group_header (current_tag s) (tag_count s)];
                marks1 = (if is_virtual \<and> tag_group_start s \<noteq> None
                          then marks s @ [(length logs1 - 1, length logs1 - 1 + length (tag_group s))]
                          else marks s)
            in s\<lparr>filtered_logs := logs1 @ tag_group s, marks := marks1\<rparr>)
      else if tag_group s \<noteq> [] then s\<lparr>filtered_logs := filtered_logs s @ tag_group s\<rparr>
      else s)"

definition filter_step :: "'d externals \<Rightarrow> 'd viewer \<Rightarrow> collapse_state \<Rightarrow> string \<Rightarrow> collapse_state" where
  \<comment> \<open>one iteration of the loop over \<open>current_logs\<close>\<close>
  "filter_step U v s line =
     (if \<not> search_passes U (str_lower U (search_var (widgets v))) line then s
      else if \<not> should_show_log U line (get_show_filters v) then s
      else
        (let log_info = parse_log_line U line (collapse_long_lines v)
         in if collapse_repeated_tags v
            then (let line_tag = tag_search U line;
                      content_clean = sub_digits U (cp_take 100 (content log_info))
                  in if is_same_group line_tag content_clean s
                     then s\<lparr>tag_group := tag_group s @ [log_info], tag_count := tag_count s + 1\<rparr>
                     else (let s1 = flush_in_loop (log_tree_virtual (widgets v))
                                      (GROUP_COLLAPSE_THRESHOLD U) s
                           in s1\<lparr>current_tag := line_tag,
                                 current_message_pattern :=
                                   (if \<not> truthy line_tag then Some content_clean else None),
                                 tag_group := [log_info],
                                 tag_count := 1,
                                 tag_group_start := Some (length (filtered_logs s1)),
                                 filtered_count := filtered_count s1 + 1\<rparr>))
            else s\<lparr>filtered_logs := filtered_logs s @ [log_info],
                   filtered_count := filtered_count s + 1\<rparr>))"

definition flush_last :: "'d externals \<Rightarrow> 'd viewer \<Rightarrow> collapse_state \<Rightarrow> collapse_state" where
  \<comment> \<open>the treatment of the last group, after the loop\<close>
  "flush_last U v s =
     (if collapse_repeated_tags v \<and> int (tag_count s) \<ge> GROUP_COLLAPSE_THRESHOLD U
      then (let logs1 = filtered_logs s @ [group_header (current_tag s) (tag_count s)] @ tag_group s;
                marks1 = (if log_tree_virtual (widgets v) \<and> tag_group_start s \<noteq> None
                          then marks s @ [(length logs1 - 1 - length (tag_group s), length logs1 - 1)]
                          else marks s)
            in s\<lparr>filtered_logs := logs1, marks := marks1\<rparr>)
      else if tag_group s \<noteq> [] then s\<lparr>filtered_logs := filtered_logs s @ tag_group s\<rparr>
      else s)"

definition filter_pass :: "'d externals \<Rightarrow> 'd viewer \<Rightarrow> string list \<Rightarrow> collapse_state" where
  \<comment> \<open>the loop and the treatment of the last group\<close>
  "filter_pass U v lines = flush_last U v (foldl (filter_step U v) init_state lines)"

definition apply_filter :: "'d externals \<Rightarrow> 'd viewer \<Rightarrow> 'd viewer" where
  "apply_filter U v =
     (let s = filter_pass U v (current_logs v)
      in v\<lparr>widgets := (widgets v)\<lparr>log_tree_logs := filtered_logs s,
                                   log_tree_marks := marks s,
                                   stats_label := (filtered_count s, length (current_logs v))\<rparr>\<rparr>)"

section \<open>Group and message panels\<close>

definition ALL_GROUPS :: string where
  "ALL_GROUPS = [CHR 0xE3, CHR 0x81, CHR 0x99, CHR 0xE3, CHR 0x81, CHR 0xB9, CHR 0xE3,
     CHR 0x81, CHR 0xA6, CHR 0xE3, CHR 0x81, CHR 0xAE, CHR 0xE3, CHR 0x82, CHR 0xB0,
     CHR 0xE3, CHR 0x83, CHR 0xAB, CHR 0xE3, CHR 0x83, CHR 0xBC, CHR 0xE3, CHR 0x83,
     CHR 0x97]"

definition message_count :: "string \<times> 'd GroupInfo \<Rightarrow> nat" where
  \<comment> \<open>the sort key \<open>lambda x: len(x[1]['messages'])\<close>\<close>
  "message_count x = length (messages (snd x))"

definition sorted_groups :: "'d viewer \<Rightarrow> (string \<times> 'd GroupInfo) list" where
  "sorted_groups v = py_sorted_reverse message_count (groups v)"

definition group_entry :: "string \<times> 'd GroupInfo \<Rightarrow> string" where
  "group_entry x = name (snd x) @ '' ('' @ str_of_nat (length (messages (snd x))) @ '')''"

definition update_group_list :: "'d viewer \<Rightarrow> 'd viewer" where
  "update_group_list v =
     (let group_list = ALL_GROUPS # map group_entry (sorted_groups v);
          current_selection = group_combo_text (widgets v)
      in v\<lparr>widgets := (widgets v)\<lparr>group_combo_values := group_list,
             group_combo_text := (if current_selection \<in> set group_list then current_selection
                                  else ALL_GROUPS)\<rparr>\<rparr>)"

fun index_of :: "'a \<Rightarrow> 'a list \<Rightarrow> int" where
  "index_of x [] = - 1"
| "index_of x (y # ys) =
     (if x = y then 0 else (let i = index_of x ys in if i < 0 then - 1 else i + 1))"

definition group_combo_current :: "'d viewer \<Rightarrow> int" where
  \<comment> \<open>\<open>group_combo.current()\<close>: the position of the shown text in the list of values,
      or -1\<close>
  "group_combo_current v = index_of (group_combo_text (widgets v)) (group_combo_values (widgets v))"

definition selected_messages :: "'d viewer \<Rightarrow> 'd NotificationData list" where
  \<comment> \<open>the messages both panels start from. The key read at \<open>group_index\<close> is a key of
      \<open>groups\<close>, so the lookup cannot fail.\<close>
  "selected_messages v =
     (let selected_group = group_combo_text (widgets v)
      in if selected_group = ALL_GROUPS \<or> selected_group = [] then notifications v
         else (let group_index = group_combo_current v - 1
               in if 0 \<le> group_index \<and> group_index < int (length (groups v))
                  then (case map_of (groups v) (map fst (groups v) ! nat group_index) of
                          Some g \<Rightarrow> messages g
                        | None \<Rightarrow> [])
                  else []))"

definition preview :: "'d NotificationData \<Rightarrow> string" where
  "preview n =
     (let p = map (\<lambda>c. if c = CHR 0x0A then CHR '' '' else c) (cp_take 50 (message n))
      in if cp_length (message n) > 50 then p @ ''...'' else p)"

definition update_message_list :: "('d::linorder) viewer \<Rightarrow> 'd viewer" where
  "update_message_list v =
     (let sorted_messages = py_sorted_reverse date (selected_messages v)
      in v\<lparr>widgets := (widgets v)\<lparr>msg_tree := map (\<lambda>n. (date n, preview n)) sorted_messages,
                                   msg_stats_label := (length sorted_messages, None)\<rparr>,
            current_displayed_messages := sorted_messages\<rparr>)"


section \<open>Loading and tailing the log file\<close>

text \<open>
  What the file system shows of a path at the time of a call: nothing (the file is
  missing and \<open>stat\<close> raises), or a size together with the decoded text, \<open>None\<close> when
  \<open>read_file_with_encoding\<close> raises. An exception ends \<open>load_log_file\<close> in its handler,
  which only reports it; the viewer keeps what was assigned before.
\<close>

record file_view =
  st_size :: nat
  decoded :: "string option"

definition load_log_file ::
  "('d::linorder) externals \<Rightarrow> 'd viewer \<Rightarrow> (string \<Rightarrow> file_view option) \<Rightarrow> string \<Rightarrow> bool \<Rightarrow> bool \<Rightarrow> 'd viewer" where
  \<comment> \<open>\<open>append_flag\<close> is the parameter \<open>append\<close> of the source; \<open>confirm\<close> is the user's answer to the
      large-file question, asked only on a full load. The size in megabytes is compared
      in bytes.\<close>
  "load_log_file U v fs log_file append_flag confirm =
     (let v0 = v\<lparr>current_log_file := Some log_file\<rparr>
      in case fs log_file of
           None \<Rightarrow> v0
         | Some f \<Rightarrow>
             (let file_size = st_size f
              in if file_size > LARGE_FILE_THRESHOLD_MB U * (1024 * 1024) \<and> \<not> append_flag \<and> \<not> confirm
                 then v0
                 else (case decoded f of
                         None \<Rightarrow> v0\<lparr>file_reads := file_reads v0 + 1\<rparr>
                       | Some file_content \<Rightarrow>
                           (let lines = splitlines file_content;
                                v1 = v0\<lparr>file_reads := file_reads v0 + 1, last_file_size := file_size\<rparr>;
                                v2 = (if \<not> append_flag then v1\<lparr>current_logs := lines\<rparr>
                                      else (let new_lines = drop (length (current_logs v1)) lines
                                            in v1\<lparr>current_logs := current_logs v1 @ new_lines\<rparr>));
                                new_content = (if \<not> append_flag then file_content
                                               else join [CHR 0x0A] (drop (length (current_logs v2)) lines));
                                new_notifications = parse_notifications U new_content;
                                v3 = (if \<not> append_flag then v2\<lparr>notifications := new_notifications\<rparr>
                                      else v2\<lparr>notifications := notifications v2 @ new_notifications\<rparr>);
                                v4 = v3\<lparr>groups := organize_notifications_by_group U
                                                      (notifications v3) (group_names v3)\<rparr>;
                                v5 = (if \<not> append_flag then apply_filter U v4 else v4);
                                v6 = update_group_list v5
                            in if \<not> append_flag then update_message_list v6 else v6))))"

definition check_for_updates ::
  "('d::linorder) externals \<Rightarrow> 'd viewer \<Rightarrow> (string \<Rightarrow> file_view option) \<Rightarrow> 'd viewer" where
  \<comment> \<open>one tail check; the timer that schedules the next one is not part of the model\<close>
  "check_for_updates U v fs =
     (if \<not> auto_update v then v
      else (case current_log_file v of
              None \<Rightarrow> v
            | Some p \<Rightarrow>
                (case fs p of
                   None \<Rightarrow> v
                 | Some f \<Rightarrow>
                     (let current_size = st_size f
                      in if current_size \<noteq> last_file_size v
                         then load_log_file U v fs p True False
                         else v))))"

section \<open>Notions used to state the properties\<close>

definition passes :: "'d externals \<Rightarrow> 'd viewer \<Rightarrow> string \<Rightarrow> bool" where
  \<comment> \<open>a line passes when neither of the two \<open>continue\<close> guards of the loop fires\<close>
  "passes U v line =
     (search_passes U (str_lower U (search_var (widgets v))) line
      \<and> should_show_log U line (get_show_filters v))"

definition survivors :: "'d externals \<Rightarrow> 'd viewer \<Rightarrow> string list \<Rightarrow> string list" where
  "survivors U v lines = filter (passes U v) lines"

definition parsed :: "'d externals \<Rightarrow> 'd viewer \<Rightarrow> string \<Rightarrow> LogInfo" where
  "parsed U v line = parse_log_line U line (collapse_long_lines v)"

definition is_group_header :: "LogInfo \<Rightarrow> bool" where
  "is_group_header r = (''group_header'' \<in> set (tags r))"

definition stated_count :: "LogInfo \<Rightarrow> nat option" where
  \<comment> \<open>the count a header states: the decimal number that stands in its content
      between a closing bracket with a space and the closing words, if there is one\<close>
  "stated_count r =
     (let c = rev (content r); suffix = rev ('' '' @ LOGS_SUFFIX)
      in if take (length suffix) c = suffix
         then (let rest = drop (length suffix) c; ds = takeWhile is_digit rest
               in if ds \<noteq> [] \<and> take 2 (dropWhile is_digit rest) = '' ]''
                  then Some (nat_of_digits (rev ds)) else None)
         else None)"

datatype signature = Tag string | Key string

definition content_key :: "'d externals \<Rightarrow> 'd viewer \<Rightarrow> string \<Rightarrow> string" where
  \<comment> \<open>the digit-normalised content key, \<open>content_clean\<close> in the source\<close>
  "content_key U v line = sub_digits U (cp_take 100 (content (parsed U v line)))"

definition signature_of :: "'d externals \<Rightarrow> 'd viewer \<Rightarrow> string \<Rightarrow> signature" where
  \<comment> \<open>the bracketed tag if present, otherwise the content key\<close>
  "signature_of U v line =
     (case tag_search U line of Some t \<Rightarrow> Tag t | None \<Rightarrow> Key (content_key U v line))"

definition shares_signature :: "'d externals \<Rightarrow> 'd viewer \<Rightarrow> string \<Rightarrow> string \<Rightarrow> bool" where
  "shares_signature U v a b = (signature_of U v a = signature_of U v b)"

definition same_group :: "'d externals \<Rightarrow> 'd viewer \<Rightarrow> string \<Rightarrow> string \<Rightarrow> bool" where
  \<comment> \<open>two lines share a signature that is not the empty content key\<close>
  "same_group U v a b = (signature_of U v a = signature_of U v b \<and> signature_of U v a \<noteq> Key [])"

function runs_by :: "('a \<Rightarrow> 'a \<Rightarrow> bool) \<Rightarrow> 'a list \<Rightarrow> 'a list list" where
  \<comment> \<open>the maximal runs of a list: a run is an element and the elements after it that
      are related to it\<close>
  "runs_by R [] = []"
| "runs_by R (x # xs) = (x # takeWhile (R x) xs) # runs_by R (dropWhile (R x) xs)"
  by pat_completeness auto
termination
  by (relation "measure (\<lambda>(R, xs). length xs)") (auto simp: length_dropWhile_le less_Suc_eq_le)

definition run_tag :: "'d externals \<Rightarrow> string list \<Rightarrow> string option" where
  \<comment> \<open>the tag of the first line of a run, \<open>current_tag\<close> while the run is pending\<close>
  "run_tag U run = (case run of [] \<Rightarrow> None | l # _ \<Rightarrow> tag_search U l)"

definition emit_run :: "'d externals \<Rightarrow> 'd viewer \<Rightarrow> string list \<Rightarrow> LogInfo list" where
  \<comment> \<open>what a finished run contributes to the display list\<close>
  "emit_run U v run =
     (if int (length run) \<ge> GROUP_COLLAPSE_THRESHOLD U
      then group_header (run_tag U run) (length run) # map (parsed U v) run
      else map (parsed U v) run)"

definition collapse_spec :: "'d externals \<Rightarrow> 'd viewer \<Rightarrow> string list \<Rightarrow> LogInfo list" where
  \<comment> \<open>the collapser as the specification words it: runs of records sharing a
      signature, each emitted with a header when it reaches the threshold\<close>
  "collapse_spec U v xs = concat (map (emit_run U v) (runs_by (shares_signature U v) xs))"

definition collapse_runs :: "'d externals \<Rightarrow> 'd viewer \<Rightarrow> string list \<Rightarrow> LogInfo list" where
  \<comment> \<open>the same with runs of lines in the same group\<close>
  "collapse_runs U v xs = concat (map (emit_run U v) (runs_by (same_group U v) xs))"

definition displayed :: "'d externals \<Rightarrow> 'd viewer \<Rightarrow> LogInfo list" where
  \<comment> \<open>the display list \<open>apply_filter\<close> hands to the log tree\<close>
  "displayed U v = log_tree_logs (widgets (apply_filter U v))"

definition pending :: "'d externals \<Rightarrow> 'd viewer \<Rightarrow> string list \<Rightarrow> collapse_state \<Rightarrow> bool" where
  \<comment> \<open>the loop invariant: the state holds the run \<open>run\<close> as its pending group\<close>
  "pending U v run s =
     (current_tag s = run_tag U run
      \<and> current_message_pattern s =
          (case run of [] \<Rightarrow> None
           | x # _ \<Rightarrow> if tag_search U x = None then Some (content_key U v x) else None)
      \<and> tag_group s = map (parsed U v) run
      \<and> tag_count s = length run)"

section \<open>An instance of the absent modules\<close>

definition strip_eol :: "string \<Rightarrow> string" where
  \<comment> \<open>a line without the line end \<open>splitlines\<close> keeps\<close>
  "strip_eol s = rev (dropWhile (\<lambda>c. c \<in> set [CHR 0x0A, CHR 0x0B, CHR 0x0C, CHR 0x0D,
                                             CHR 0x1C, CHR 0x1D, CHR 0x1E]) (rev s))"

definition example_level :: "string \<Rightarrow> string" where
  \<comment> \<open>Modelled from the spec: the level classification of \<open>LogParser\<close> in the \<open>utils\<close>
      module, which is not among the sources: the first level keyword found anywhere
      in the line, case-insensitively; a line without a keyword counts as
      information.\<close>
  "example_level line =
     (let l = ascii_lower line
      in if py_in ''error'' l then ''Error''
         else if py_in ''warning'' l then ''Warning''
         else if py_in ''debug'' l then ''Debug''
         else ''Info'')"

definition example_parse_log_line :: "string \<Rightarrow> bool \<Rightarrow> LogInfo" where
  \<comment> \<open>Modelled from the spec: \<open>LogParser.parse_log_line\<close> of the \<open>utils\<close> module, which
      is not among the sources, for lines without a timestamp: an empty timestamp and
      the text of the line, without its line end, as content, cut at 200 characters
      with an elision suffix when truncation is enabled.\<close>
  "example_parse_log_line line collapse_long =
     (let body = strip_eol line
      in \<lparr>timestamp = [], level = example_level line,
          content = (if collapse_long \<and> cp_length body > 200 then cp_take 200 body @ ''...''
                     else body),
          tags = []\<rparr>)"

definition example_should_show_log :: "string \<Rightarrow> show_filters \<Rightarrow> bool" where
  \<comment> \<open>Modelled from the spec: \<open>LogParser.should_show_log\<close> of the \<open>utils\<close> module, which
      is not among the sources: a line is shown when its level is selected.\<close>
  "example_should_show_log line f =
     (let l = example_level line
      in if l = ''Error'' then error f
         else if l = ''Warning'' then warning f
         else if l = ''Debug'' then debug f
         else info f)"

definition example_notification :: "string \<Rightarrow> nat NotificationData list" where
  \<comment> \<open>the notification of one line, if it is one; see \<open>example_parse_notifications\<close>\<close>
  "example_notification line =
     (case line of
        [] \<Rightarrow> []
      | c # rest \<Rightarrow>
          (if c = CHR ''@''
           then (let ds = takeWhile is_digit rest;
                     r = drop 1 (dropWhile is_digit rest)
                 in [\<lparr>notif_id = [], group_id = takeWhile (\<lambda>x. x \<noteq> CHR '':'') r,
                      date = nat_of_digits ds, created_at = ds,
                      message = strip_eol (drop 1 (dropWhile (\<lambda>x. x \<noteq> CHR '':'') r))\<rparr>])
           else []))"

definition example_parse_notifications :: "string \<Rightarrow> nat NotificationData list" where
  \<comment> \<open>Modelled from the spec: \<open>NotificationParser.parse_notifications\<close> of the \<open>utils\<close>
      module, which is not among the sources. The spec fixes neither the marker nor the
      payload syntax; here a line \<open>@date group:message\<close> is a notification, and any
      other line is skipped.\<close>
  "example_parse_notifications text = concat (map example_notification (splitlines text))"

fun add_to_group ::
  "(string \<times> string) list \<Rightarrow> 'd NotificationData \<Rightarrow> (string \<times> 'd GroupInfo) list
     \<Rightarrow> (string \<times> 'd GroupInfo) list" where
  "add_to_group names n [] =
     [(group_id n, \<lparr>name = (case map_of names (group_id n) of Some x \<Rightarrow> x | None \<Rightarrow> group_id n),
                    messages = [n]\<rparr>)]"
| "add_to_group names n ((k, g) # gs) =
     (if k = group_id n then (k, g\<lparr>messages := messages g @ [n]\<rparr>) # gs
      else (k, g) # add_to_group names n gs)"

definition example_organize ::
  "'d NotificationData list \<Rightarrow> (string \<times> string) list \<Rightarrow> (string \<times> 'd GroupInfo) list" where
  \<comment> \<open>Modelled from the spec: \<open>GroupUtils.organize_notifications_by_group\<close> of the
      \<open>utils\<close> module, which is not among the sources: notifications are grouped by
      \<open>group_id\<close> in file order, a group is created when its id is first seen, and its
      name is the override if there is one, otherwise the id.\<close>
  "example_organize ns names = foldl (\<lambda>gs n. add_to_group names n gs) [] ns"

definition example_utils :: "nat externals" where
  \<comment> \<open>Modelled from the spec: the \<open>utils\<close> and \<open>constants\<close> modules, which are not among
      the sources; the thresholds are those of the spec's scenario (3 records) and
      default (10 MB). The Unicode tables are cut down to ASCII, on which they are
      exact: the examples below hold ASCII text only.\<close>
  "example_utils =
     \<lparr>should_show_log = example_should_show_log,
      parse_log_line = example_parse_log_line,
      parse_notifications = example_parse_notifications,
      organize_notifications_by_group = example_organize,
      GROUP_COLLAPSE_THRESHOLD = 3,
      LARGE_FILE_THRESHOLD_MB = 10,
      str_lower = ascii_lower,
      unicode_word_or_space = (\<lambda>c. False),
      unicode_digit = (\<lambda>c. False)\<rparr>"

definition empty_widgets :: "nat widgets" where
  \<comment> \<open>the widgets after \<open>setup_ui\<close>: every level shown, nothing typed or listed\<close>
  "empty_widgets =
     \<lparr>search_var = [], show_error = True, show_warning = True, show_debug = True,
      show_info = True, log_tree_virtual = True, log_tree_logs = [], log_tree_marks = [],
      stats_label = (0, 0), group_combo_values = [], group_combo_text = [],
      msg_search_var = [], msg_tree = [], msg_stats_label = (0, None)\<rparr>"

definition new_viewer :: "nat viewer" where
  \<comment> \<open>the viewer as \<open>__init__\<close> leaves it before the first load\<close>
  "new_viewer =
     \<lparr>current_logs = [], notifications = [], groups = [], current_displayed_messages = [],
      auto_update = False, last_file_size = 0, current_log_file = None,
      collapse_long_lines = True, collapse_repeated_tags = True, group_names = [],
      widgets = empty_widgets, file_reads = 0\<rparr>"

section \<open>Example states\<close>

definition NL :: string where
  "NL = [CHR 0x0A]"

definition search_viewer :: "nat viewer" where
  \<comment> \<open>four loaded lines and the search text \<open>NET\<close>\<close>
  "search_viewer = new_viewer\<lparr>
     current_logs := [''[Network] a'' @ NL, ''other'' @ NL, ''[Network] b'' @ NL, ''[Network] c'' @ NL],
     widgets := empty_widgets\<lparr>search_var := ''NET''\<rparr>\<rparr>"

definition levels_viewer :: "nat viewer" where
  \<comment> \<open>six loaded lines, debug lines hidden\<close>
  "levels_viewer = new_viewer\<lparr>
     current_logs := [''[Network] a'' @ NL, ''[Network] b'' @ NL, ''[Network] c'' @ NL,
                      ''x 1'' @ NL, ''debug: hidden'' @ NL, ''x 2'' @ NL],
     widgets := empty_widgets\<lparr>show_debug := False\<rparr>\<rparr>"



definition blank_viewer :: "nat viewer" where
  \<comment> \<open>three blank lines loaded, as from a file holding three line feeds\<close>
  "blank_viewer = new_viewer\<lparr>current_logs := [NL, NL, NL]\<rparr>"


definition file_of :: "string \<Rightarrow> file_view" where
  \<comment> \<open>a readable file of ASCII text: its size is the length of the text\<close>
  "file_of text = \<lparr>st_size = length text, decoded = Some text\<rparr>"

definition first_text :: string where
  "first_text = ''@12 g1:hello'' @ NL @ ''other'' @ NL @ ''@7 g2:yo'' @ NL"

definition appended_text :: string where
  "appended_text = ''@9 g1:again'' @ NL"

definition first_fs :: "string \<Rightarrow> file_view option" where
  "first_fs p = (if p = ''output_log.txt'' then Some (file_of first_text) else None)"

definition grown_fs :: "string \<Rightarrow> file_view option" where
  "grown_fs p = (if p = ''output_log.txt'' then Some (file_of (first_text @ appended_text)) else None)"

definition shrunk_fs :: "string \<Rightarrow> file_view option" where
  "shrunk_fs p = (if p = ''output_log.txt'' then Some (file_of (''fresh'' @ NL)) else None)"

definition tail_viewer :: "nat viewer" where
  \<comment> \<open>the viewer after a first full load of the file, with auto-update switched on\<close>
  "tail_viewer = (load_log_file example_utils new_viewer first_fs ''output_log.txt'' False True)\<lparr>auto_update := True\<rparr>"

definition n1 :: "nat NotificationData" where
  "n1 = \<lparr>notif_id = ''a'', group_id = ''g1'', date = 1, created_at = ''1'', message = ''Hello one''\<rparr>"

definition n2 :: "nat NotificationData" where
  "n2 = \<lparr>notif_id = ''b'', group_id = ''g2'', date = 3, created_at = ''3'', message = ''hello two''\<rparr>"

definition n3 :: "nat NotificationData" where
  "n3 = \<lparr>notif_id = ''c'', group_id = ''g1'', date = 2, created_at = ''2'', message = ''HELLO three''\<rparr>"


definition groups_viewer :: "nat viewer" where
  \<comment> \<open>four groups in the order they were first seen, with 1, 2, 1 and 2 messages\<close>
  "groups_viewer = new_viewer\<lparr>
     groups := [(''g1'', \<lparr>name = ''One'', messages = [n1]\<rparr>),
                (''g2'', \<lparr>name = ''Two'', messages = [n2, n2]\<rparr>),
                (''g3'', \<lparr>name = ''Three'', messages = [n3]\<rparr>),
                (''g4'', \<lparr>name = ''Four'', messages = [n1, n3]\<rparr>)]\<rparr>"

section \<open>The filter loop and the runs of surviving lines\<close>

lemma cp_chunks_nonempty: "c \<in> set (cp_chunks s) \<Longrightarrow> c \<noteq> []"
proof (induction s rule: cp_chunks.induct)
  case 1
  then show ?case by simp
next
  case (2 b bs)
  then show ?case by auto
qed

lemma concat_cp_chunks: "concat (cp_chunks s) = s"
  by (induction s rule: cp_chunks.induct) auto

lemma tag_search_chunks_nonempty:
  "tag_search_chunks U cs = Some t \<Longrightarrow> \<forall>c\<in>set cs. c \<noteq> [] \<Longrightarrow> t \<noteq> []"
proof (induction cs)
  case Nil
  then show ?case by simp
next
  case (Cons c cs)
  let ?t = "takeWhile (re_word_or_space U) cs"
  show ?case
  proof (cases "tag_search_chunks U (c # cs) = tag_search_chunks U cs")
    case True
    then show ?thesis using Cons by simp
  next
    case False
    then have t: "t = concat ?t" and ne: "?t \<noteq> []"
      using Cons.prems(1) by (auto simp: Let_def split: if_splits)
    from ne obtain d ds where d: "?t = d # ds" by (cases ?t) auto
    then have "d \<in> set cs" using set_takeWhileD[of d "re_word_or_space U" cs] by simp
    then have "d \<noteq> []" using Cons.prems(2) by simp
    then show ?thesis using t d by simp
  qed
qed

lemma tag_search_nonempty: "tag_search U l = Some t \<Longrightarrow> t \<noteq> []"
  unfolding tag_search_def using tag_search_chunks_nonempty cp_chunks_nonempty by blast

lemma truthy_tag_search: "truthy (tag_search U l) = (tag_search U l \<noteq> None)"
  by (cases "tag_search U l") (auto simp: truthy_def dest: tag_search_nonempty)

lemma filter_step_skip: "\<not> passes U v l \<Longrightarrow> filter_step U v s l = s"
  by (auto simp: passes_def filter_step_def)

lemma foldl_filter_step_survivors:
  "foldl (filter_step U v) s lines = foldl (filter_step U v) s (survivors U v lines)"
  by (induction lines arbitrary: s) (auto simp: survivors_def filter_step_skip)

lemma pending_init: "pending U v [] init_state"
  by (simp add: pending_def init_state_def run_tag_def)

lemma is_same_group_pending:
  "pending U v (x # r) s \<Longrightarrow>
     is_same_group (tag_search U y) (content_key U v y) s = same_group U v x y"
  by (cases "tag_search U x"; cases "tag_search U y")
     (auto simp: pending_def is_same_group_def same_group_def signature_of_def run_tag_def
        truthy_def dest: tag_search_nonempty)

lemma is_same_group_init:
  "pending U v [] s \<Longrightarrow> \<not> is_same_group (tag_search U y) k s"
  by (auto simp: pending_def is_same_group_def run_tag_def truthy_def split: option.splits)

lemma flush_in_loop_logs:
  "pending U v run s \<Longrightarrow>
     filtered_logs (flush_in_loop b (GROUP_COLLAPSE_THRESHOLD U) s) = filtered_logs s @ emit_run U v run"
  by (auto simp: pending_def flush_in_loop_def emit_run_def Let_def)

lemma flush_last_logs:
  "pending U v run s \<Longrightarrow> collapse_repeated_tags v \<Longrightarrow>
     filtered_logs (flush_last U v s) = filtered_logs s @ emit_run U v run"
  by (auto simp: pending_def flush_last_def emit_run_def Let_def)

lemma step_same:
  assumes "passes U v y" "collapse_repeated_tags v" "pending U v (x # r) s" "same_group U v x y"
  shows "pending U v (x # r @ [y]) (filter_step U v s y)"
    and "filtered_logs (filter_step U v s y) = filtered_logs s"
  using assms is_same_group_pending[OF assms(3), of y]
  by (auto simp: filter_step_def passes_def Let_def content_key_def parsed_def pending_def run_tag_def)

lemma step_new:
  assumes "passes U v y" "collapse_repeated_tags v" "pending U v run s"
    "run = [] \<or> \<not> same_group U v (hd run) y"
  shows "pending U v [y] (filter_step U v s y)"
    and "filtered_logs (filter_step U v s y) = filtered_logs s @ emit_run U v run"
proof -
  have ns: "\<not> is_same_group (tag_search U y) (content_key U v y) s"
  proof (cases run)
    case Nil then show ?thesis using assms(3) is_same_group_init by blast
  next
    case (Cons x r) then show ?thesis using assms(3,4) is_same_group_pending by fastforce
  qed
  let ?s1 = "flush_in_loop (log_tree_virtual (widgets v)) (GROUP_COLLAPSE_THRESHOLD U) s"
  have st: "filter_step U v s y =
    ?s1\<lparr>current_tag := tag_search U y,
        current_message_pattern := (if \<not> truthy (tag_search U y) then Some (content_key U v y) else None),
        tag_group := [parsed U v y], tag_count := 1,
        tag_group_start := Some (length (filtered_logs ?s1)),
        filtered_count := filtered_count ?s1 + 1\<rparr>"
    using assms(1,2) ns
    by (simp add: filter_step_def passes_def Let_def content_key_def parsed_def)
  show "pending U v [y] (filter_step U v s y)"
    unfolding st by (simp add: pending_def run_tag_def truthy_tag_search)
  show "filtered_logs (filter_step U v s y) = filtered_logs s @ emit_run U v run"
    unfolding st using flush_in_loop_logs[OF assms(3)] by simp
qed

lemma loop_runs:
  assumes "collapse_repeated_tags v" "\<forall>l\<in>set xs. passes U v l" "pending U v (x # r) s"
  shows "filtered_logs (flush_last U v (foldl (filter_step U v) s xs)) =
         filtered_logs s @ concat (map (emit_run U v)
           ((x # r @ takeWhile (same_group U v x) xs) # runs_by (same_group U v) (dropWhile (same_group U v x) xs)))"
  using assms(2,3)
proof (induction xs arbitrary: x r s)
  case Nil
  then show ?case using flush_last_logs[OF _ assms(1)] by simp
next
  case (Cons y ys)
  have py: "passes U v y" and pys: "\<forall>l\<in>set ys. passes U v l" using Cons.prems(1) by auto
  show ?case
  proof (cases "same_group U v x y")
    case True
    from step_same[OF py assms(1) Cons.prems(2) True]
    have p: "pending U v (x # (r @ [y])) (filter_step U v s y)"
      and l: "filtered_logs (filter_step U v s y) = filtered_logs s" by auto
    show ?thesis using Cons.IH[OF pys p] l True by simp
  next
    case False
    from step_new[OF py assms(1) Cons.prems(2)] False
    have p: "pending U v (y # []) (filter_step U v s y)"
      and l: "filtered_logs (filter_step U v s y) = filtered_logs s @ emit_run U v (x # r)" by auto
    show ?thesis using Cons.IH[OF pys p] l False by simp
  qed
qed

lemma loop_from_init:
  assumes "collapse_repeated_tags v" "\<forall>l\<in>set xs. passes U v l"
  shows "filtered_logs (flush_last U v (foldl (filter_step U v) init_state xs)) =
         concat (map (emit_run U v) ([] # runs_by (same_group U v) xs))"
proof (cases xs)
  case Nil
  then show ?thesis using flush_last_logs[OF pending_init assms(1), of U]
    by (simp add: init_state_def)
next
  case (Cons y ys)
  have py: "passes U v y" and pys: "\<forall>l\<in>set ys. passes U v l" using assms(2) Cons by auto
  from step_new[OF py assms(1) pending_init]
  have p: "pending U v (y # []) (filter_step U v init_state y)"
    and l: "filtered_logs (filter_step U v init_state y) = emit_run U v []"
    by (auto simp: init_state_def)
  show ?thesis using loop_runs[OF assms(1) pys p] l Cons by simp
qed

lemma filter_pass_collapsed:
  assumes "collapse_repeated_tags v"
  shows "filtered_logs (filter_pass U v lines) =
         concat (map (emit_run U v) ([] # runs_by (same_group U v) (survivors U v lines)))"
  unfolding filter_pass_def foldl_filter_step_survivors[of U v init_state lines]
  by (rule loop_from_init[OF assms]) (simp add: survivors_def)

lemma loop_plain:
  assumes "\<not> collapse_repeated_tags v" "\<forall>l\<in>set xs. passes U v l"
  shows "filtered_logs (foldl (filter_step U v) s xs) = filtered_logs s @ map (parsed U v) xs
       \<and> tag_group (foldl (filter_step U v) s xs) = tag_group s"
  using assms(2)
proof (induction xs arbitrary: s)
  case Nil then show ?case by simp
next
  case (Cons y ys)
  then show ?case using assms(1)
    by (simp add: filter_step_def passes_def parsed_def Let_def)
qed

lemma filter_pass_plain:
  assumes "\<not> collapse_repeated_tags v"
  shows "filtered_logs (filter_pass U v lines) = map (parsed U v) (survivors U v lines)"
proof -
  have "\<forall>l\<in>set (survivors U v lines). passes U v l" by (simp add: survivors_def)
  from loop_plain[OF assms this, of init_state]
  show ?thesis using assms
    unfolding filter_pass_def foldl_filter_step_survivors[of U v init_state lines]
    by (simp add: flush_last_def init_state_def)
qed

lemma displayed_eq: "displayed U v = filtered_logs (filter_pass U v (current_logs v))"
  by (simp add: displayed_def apply_filter_def Let_def)

lemma passes_current_logs [simp]: "passes U (v\<lparr>current_logs := xs\<rparr>) = passes U v"
  by (rule ext) (simp add: passes_def get_show_filters_def)

lemma filter_step_current_logs [simp]:
  "filter_step U (v\<lparr>current_logs := xs\<rparr>) = filter_step U v"
  by (intro ext) (simp add: filter_step_def get_show_filters_def Let_def)

lemma flush_last_current_logs [simp]:
  "flush_last U (v\<lparr>current_logs := xs\<rparr>) = flush_last U v"
  by (intro ext) (simp add: flush_last_def)

lemma filter_pass_current_logs [simp]:
  "filter_pass U (v\<lparr>current_logs := xs\<rparr>) = filter_pass U v"
  by (intro ext) (simp add: filter_pass_def)

lemma concat_runs_by: "concat (runs_by R xs) = xs"
  by (induction R xs rule: runs_by.induct) auto

lemma runs_by_subset: "run \<in> set (runs_by R xs) \<Longrightarrow> set run \<subseteq> set xs"
proof (induction R xs rule: runs_by.induct)
  case (1 R) then show ?case by simp
next
  case (2 R x xs)
  then show ?case
    using set_takeWhileD[of _ "R x" xs] set_dropWhileD[of _ "R x" xs] by auto
qed

lemma header_is_header: "is_group_header (group_header t n)"
  by (simp add: is_group_header_def group_header_def)

lemma set_emit_run: "set (emit_run U v run) \<subseteq> insert (group_header (run_tag U run) (length run)) (parsed U v ` set run)"
  by (auto simp: emit_run_def)


lemma filter_pass_survivors_idem:
  "filter_pass U v lines = filter_pass U v (survivors U v lines)"
proof -
  have "survivors U v (survivors U v lines) = survivors U v lines"
    by (simp add: survivors_def)
  then show ?thesis
    unfolding filter_pass_def
    using foldl_filter_step_survivors[of U v init_state lines] by simp
qed

lemma filter_pass_records:
  assumes "r \<in> set (filtered_logs (filter_pass U v lines))"
  shows "(\<exists>t n. r = group_header t n) \<or> r \<in> parsed U v ` set (survivors U v lines)"
proof (cases "collapse_repeated_tags v")
  case False
  then show ?thesis using assms by (simp add: filter_pass_plain)
next
  case True
  from assms obtain run where run: "run = [] \<or> run \<in> set (runs_by (same_group U v) (survivors U v lines))"
    and r: "r \<in> set (emit_run U v run)"
    unfolding filter_pass_collapsed[OF True] by auto
  from r set_emit_run have "r = group_header (run_tag U run) (length run) \<or> r \<in> parsed U v ` set run"
    by blast
  then show ?thesis using run runs_by_subset by fastforce
qed

text \<open>
  C3. The level and search guards run before any collapsing: the display list of the
  loaded lines is the display list of the lines that pass both guards, so runs and their
  lengths are those of the filtered stream; and every record shown is a group header or
  the parsed record of a loaded line that passed both guards.
\<close>

theorem filter_before_collapse:
  "displayed U v = displayed U (v\<lparr>current_logs := survivors U v (current_logs v)\<rparr>)
   \<and> (\<forall>r\<in>set (displayed U v).
         (\<exists>t n. r = group_header t n)
         \<or> (\<exists>l\<in>set (current_logs v). passes U v l \<and> r = parsed U v l))"
proof
  show "displayed U v = displayed U (v\<lparr>current_logs := survivors U v (current_logs v)\<rparr>)"
    using filter_pass_survivors_idem[of U v "current_logs v"] by (simp add: displayed_eq)
  show "\<forall>r\<in>set (displayed U v).
         (\<exists>t n. r = group_header t n) \<or> (\<exists>l\<in>set (current_logs v). passes U v l \<and> r = parsed U v l)"
    using filter_pass_records[of _ U v "current_logs v"]
    by (auto simp: displayed_eq survivors_def)
qed

lemma filter_emit_run:
  assumes "\<forall>l\<in>set run. \<not> is_group_header (parsed U v l)"
  shows "filter (\<lambda>r. \<not> is_group_header r) (emit_run U v run) = map (parsed U v) run"
  using assms by (auto simp: emit_run_def header_is_header filter_map o_def filter_id_conv)

lemma filter_concat_emit:
  assumes "\<forall>run\<in>set runs. \<forall>l\<in>set run. \<not> is_group_header (parsed U v l)"
  shows "filter (\<lambda>r. \<not> is_group_header r) (concat (map (emit_run U v) runs)) = map (parsed U v) (concat runs)"
  using assms by (induction runs) (auto simp: filter_emit_run simp del: map_eq_conv)

text \<open>
  C9. When no loaded line parses to a record tagged \<open>group_header\<close>, deleting the group
  headers from the display list leaves exactly the parsed records of the lines that
  passed the level and search guards, in file order: no surviving record is dropped,
  duplicated or moved.
\<close>

theorem headers_removed_gives_survivors:
  assumes "\<forall>l\<in>set (current_logs v). \<not> is_group_header (parsed U v l)"
  shows "filter (\<lambda>r. \<not> is_group_header r) (displayed U v) = map (parsed U v) (survivors U v (current_logs v))"
proof (cases "collapse_repeated_tags v")
  case False
  have "\<forall>l\<in>set (survivors U v (current_logs v)). \<not> is_group_header (parsed U v l)"
    using assms by (simp add: survivors_def)
  then show ?thesis using False
    by (simp add: displayed_eq filter_pass_plain filter_map o_def filter_id_conv)
next
  case True
  let ?runs = "[] # runs_by (same_group U v) (survivors U v (current_logs v))"
  have "\<forall>run\<in>set ?runs. \<forall>l\<in>set run. \<not> is_group_header (parsed U v l)"
    using assms runs_by_subset[of _ "same_group U v" "survivors U v (current_logs v)"]
    by (auto simp: survivors_def)
  from filter_concat_emit[OF this] show ?thesis
    by (simp add: displayed_eq filter_pass_collapsed[OF True] concat_runs_by)
qed

theorem filter_before_collapse_witness:
  "survivors example_utils search_viewer (current_logs search_viewer)
     = [''[Network] a'' @ NL, ''[Network] b'' @ NL, ''[Network] c'' @ NL]
   \<and> displayed example_utils search_viewer
     = displayed example_utils (search_viewer\<lparr>current_logs :=
         [''[Network] a'' @ NL, ''[Network] b'' @ NL, ''[Network] c'' @ NL]\<rparr>)
   \<and> displayed example_utils search_viewer =
       [group_header (Some ''Network'') 3,
        example_parse_log_line (''[Network] a'' @ NL) True,
        example_parse_log_line (''[Network] b'' @ NL) True,
        example_parse_log_line (''[Network] c'' @ NL) True]"
proof -
  have s: "survivors example_utils search_viewer (current_logs search_viewer)
     = [''[Network] a'' @ NL, ''[Network] b'' @ NL, ''[Network] c'' @ NL]"
    by code_simp
  have d: "displayed example_utils search_viewer =
       [group_header (Some ''Network'') 3,
        example_parse_log_line (''[Network] a'' @ NL) True,
        example_parse_log_line (''[Network] b'' @ NL) True,
        example_parse_log_line (''[Network] c'' @ NL) True]"
    by code_simp
  from filter_before_collapse[of example_utils search_viewer] s d show ?thesis by simp
qed

theorem headers_removed_gives_survivors_witness:
  "list_all (\<lambda>l. \<not> is_group_header (parsed example_utils levels_viewer l)) (current_logs levels_viewer)
   \<and> length (displayed example_utils levels_viewer) = 6
   \<and> filter (\<lambda>r. \<not> is_group_header r) (displayed example_utils levels_viewer) =
       [example_parse_log_line (''[Network] a'' @ NL) True,
        example_parse_log_line (''[Network] b'' @ NL) True,
        example_parse_log_line (''[Network] c'' @ NL) True,
        example_parse_log_line (''x 1'' @ NL) True,
        example_parse_log_line (''x 2'' @ NL) True]"
proof -
  have h: "list_all (\<lambda>l. \<not> is_group_header (parsed example_utils levels_viewer l)) (current_logs levels_viewer)"
    by code_simp
  have n: "length (displayed example_utils levels_viewer) = 6"
    by code_simp
  have m: "map (parsed example_utils levels_viewer) (survivors example_utils levels_viewer (current_logs levels_viewer)) =
       [example_parse_log_line (''[Network] a'' @ NL) True,
        example_parse_log_line (''[Network] b'' @ NL) True,
        example_parse_log_line (''[Network] c'' @ NL) True,
        example_parse_log_line (''x 1'' @ NL) True,
        example_parse_log_line (''x 2'' @ NL) True]"
    by code_simp
  from headers_removed_gives_survivors[OF h[unfolded list_all_iff]] h n m show ?thesis by simp
qed









lemma runs_by_cong:
  "(\<And>x y. x \<in> set xs \<Longrightarrow> y \<in> set xs \<Longrightarrow> R x y = R' x y) \<Longrightarrow> runs_by R xs = runs_by R' xs"
proof (induction R xs rule: runs_by.induct)
  case (1 R)
  then show ?case by simp
next
  case (2 R x xs)
  have t: "takeWhile (R x) xs = takeWhile (R' x) xs"
    by (rule takeWhile_cong) (auto simp: "2.prems")
  have d: "dropWhile (R x) xs = dropWhile (R' x) xs"
    by (rule dropWhile_cong) (auto simp: "2.prems")
  have "runs_by R (dropWhile (R x) xs) = runs_by R' (dropWhile (R x) xs)"
    using "2.prems" set_dropWhileD[of _ "R x" xs] by (intro "2.IH") auto
  then show ?case using t d by simp
qed

lemma emit_run_Nil: "1 \<le> GROUP_COLLAPSE_THRESHOLD U \<Longrightarrow> emit_run U v [] = []"
  by (simp add: emit_run_def)

text \<open>
  C4, as amended. With collapsing enabled and a threshold of at least 1, the display
  list is the concatenation, over the maximal runs of consecutive surviving lines in
  the same group, of what each run emits: one record tagged \<open>group_header\<close> followed by
  all members in order when the run has at least threshold members, the members alone
  otherwise. Two lines are in the same group when they share a signature other than
  the empty content key; when no surviving line has the empty content key as its
  signature, the runs are those of lines sharing a signature.
\<close>

theorem collapse_by_runs:
  assumes "collapse_repeated_tags v" and "1 \<le> GROUP_COLLAPSE_THRESHOLD U"
  shows "displayed U v = collapse_runs U v (survivors U v (current_logs v))
     \<and> ((\<forall>l\<in>set (survivors U v (current_logs v)). signature_of U v l \<noteq> Key [])
          \<longrightarrow> displayed U v = collapse_spec U v (survivors U v (current_logs v)))"
proof (intro conjI impI)
  show d: "displayed U v = collapse_runs U v (survivors U v (current_logs v))"
    by (simp add: displayed_eq filter_pass_collapsed[OF assms(1)] emit_run_Nil[OF assms(2)] collapse_runs_def)
  assume ne: "\<forall>l\<in>set (survivors U v (current_logs v)). signature_of U v l \<noteq> Key []"
  have "runs_by (same_group U v) (survivors U v (current_logs v))
      = runs_by (shares_signature U v) (survivors U v (current_logs v))"
    by (rule runs_by_cong) (use ne in \<open>auto simp: same_group_def shares_signature_def\<close>)
  then show "displayed U v = collapse_spec U v (survivors U v (current_logs v))"
    using d by (simp add: collapse_runs_def collapse_spec_def)
qed

theorem collapse_by_runs_witness:
  "collapse_repeated_tags levels_viewer
   \<and> 1 \<le> GROUP_COLLAPSE_THRESHOLD example_utils
   \<and> list_all (\<lambda>l. signature_of example_utils levels_viewer l \<noteq> Key [])
        (survivors example_utils levels_viewer (current_logs levels_viewer))
   \<and> displayed example_utils levels_viewer
       = collapse_runs example_utils levels_viewer
           (survivors example_utils levels_viewer (current_logs levels_viewer))
   \<and> displayed example_utils levels_viewer
       = collapse_spec example_utils levels_viewer
           (survivors example_utils levels_viewer (current_logs levels_viewer))
   \<and> displayed example_utils levels_viewer =
       [group_header (Some ''Network'') 3,
        example_parse_log_line (''[Network] a'' @ NL) True,
        example_parse_log_line (''[Network] b'' @ NL) True,
        example_parse_log_line (''[Network] c'' @ NL) True,
        example_parse_log_line (''x 1'' @ NL) True,
        example_parse_log_line (''x 2'' @ NL) True]"
proof -
  have a: "collapse_repeated_tags levels_viewer" by code_simp
  have b: "1 \<le> GROUP_COLLAPSE_THRESHOLD example_utils" by code_simp
  have c: "list_all (\<lambda>l. signature_of example_utils levels_viewer l \<noteq> Key [])
        (survivors example_utils levels_viewer (current_logs levels_viewer))" by code_simp
  have d: "displayed example_utils levels_viewer =
       [group_header (Some ''Network'') 3,
        example_parse_log_line (''[Network] a'' @ NL) True,
        example_parse_log_line (''[Network] b'' @ NL) True,
        example_parse_log_line (''[Network] c'' @ NL) True,
        example_parse_log_line (''x 1'' @ NL) True,
        example_parse_log_line (''x 2'' @ NL) True]" by code_simp
  note t = collapse_by_runs[OF a b]
  note r = t[THEN conjunct1]
  note s = t[THEN conjunct2, rule_format, OF c[unfolded list_all_iff, rule_format]]
  show ?thesis by (intro conjI a b c r s d)
qed

text \<open>
  C4, as stated, fails on three blank lines: they survive the guards, share the
  signature \<open>Key []\<close> and form one run of threshold length, yet the display list has
  three records and no header, because the loop treats an empty content key as no key.
\<close>

theorem blank_lines_counterexample:
  "collapse_repeated_tags blank_viewer
   \<and> 1 \<le> GROUP_COLLAPSE_THRESHOLD example_utils
   \<and> runs_by (shares_signature example_utils blank_viewer)
        (survivors example_utils blank_viewer (current_logs blank_viewer)) = [[NL, NL, NL]]
   \<and> GROUP_COLLAPSE_THRESHOLD example_utils \<le> int (length [NL, NL, NL])
   \<and> displayed example_utils blank_viewer =
        [example_parse_log_line NL True, example_parse_log_line NL True, example_parse_log_line NL True]
   \<and> displayed example_utils blank_viewer
        \<noteq> collapse_spec example_utils blank_viewer
             (survivors example_utils blank_viewer (current_logs blank_viewer))"
  by code_simp

lemma concat_header_position:
  assumes "\<forall>b\<in>set bs. \<forall>k<length b. P (b ! k) \<longrightarrow> k = 0"
    and "i < length (concat bs)" and "P (concat bs ! i)"
  shows "\<exists>b\<in>set bs. b \<noteq> [] \<and> concat bs ! i = hd b \<and> P (hd b)
           \<and> take (length b - 1) (drop (Suc i) (concat bs)) = tl b"
  using assms
proof (induction bs arbitrary: i)
  case Nil
  then show ?case by simp
next
  case (Cons b bs)
  show ?case
  proof (cases "i < length b")
    case True
    then have "P (b ! i)" using Cons.prems(3) by (simp add: nth_append)
    then have i0: "i = 0" using Cons.prems(1) True by auto
    then have "b \<noteq> []" using True by auto
    then obtain h t where b: "b = h # t" by (cases b) auto
    show ?thesis using i0 b Cons.prems(3) by auto
  next
    case False
    let ?j = "i - length b"
    have j: "?j < length (concat bs)" using Cons.prems(2) False by auto
    have pj: "P (concat bs ! ?j)" using Cons.prems(3) False by (simp add: nth_append)
    have "\<forall>b\<in>set bs. \<forall>k<length b. P (b ! k) \<longrightarrow> k = 0" using Cons.prems(1) by auto
    from Cons.IH[OF this j pj]
    obtain c where c: "c \<in> set bs" "c \<noteq> []" "concat bs ! ?j = hd c" "P (hd c)"
      "take (length c - 1) (drop (Suc ?j) (concat bs)) = tl c" by blast
    have "Suc i - length b = Suc ?j" using False by auto
    then have "drop (Suc i) (concat (b # bs)) = drop (Suc ?j) (concat bs)"
      using False by simp
    then show ?thesis using c False by (auto simp: nth_append)
  qed
qed

lemma emit_run_headers:
  assumes "\<forall>l\<in>set run. \<not> is_group_header (parsed U v l)"
    and "k < length (emit_run U v run)" and "is_group_header (emit_run U v run ! k)"
  shows "k = 0 \<and> emit_run U v run = group_header (run_tag U run) (length run) # map (parsed U v) run"
proof (cases "int (length run) \<ge> GROUP_COLLAPSE_THRESHOLD U")
  case True
  then have e: "emit_run U v run = group_header (run_tag U run) (length run) # map (parsed U v) run"
    by (simp add: emit_run_def)
  show ?thesis
  proof (cases k)
    case 0 then show ?thesis using e by simp
  next
    case (Suc m)
    then have "is_group_header (parsed U v (run ! m))" "m < length run"
      using assms(2,3) e by auto
    then show ?thesis using assms(1) by auto
  qed
next
  case False
  then have "emit_run U v run = map (parsed U v) run" by (simp add: emit_run_def)
  then have "is_group_header (parsed U v (run ! k))" "k < length run" using assms(2,3) by auto
  then show ?thesis using assms(1) by auto
qed

lemma is_digit_nat: "is_digit c \<longleftrightarrow> 48 \<le> (of_char c :: nat) \<and> (of_char c :: nat) \<le> 57"
proof -
  have "(of_char c :: int) = int (of_char c)" by (simp add: of_nat_of_char)
  then show ?thesis unfolding is_digit_def by simp
qed

lemma is_digit_char_of: "(d :: nat) < 10 \<Longrightarrow> is_digit (char_of (48 + d))"
  by (simp add: is_digit_nat)

lemma digit_chars_digits: "c \<in> set (digit_chars k n) \<Longrightarrow> is_digit c"
proof (induction k arbitrary: n)
  case 0
  then show ?case by simp
next
  case (Suc k)
  have "n mod 10 < 10" by simp
  then have "is_digit (char_of (48 + n mod 10))" by (rule is_digit_char_of)
  then show ?case using Suc by (auto simp: is_digit_char_of split: if_splits)
qed

lemma nat_of_digits_snoc:
  "nat_of_digits (xs @ [c]) = 10 * nat_of_digits xs + ((of_char c :: nat) - 48)"
  by (simp add: nat_of_digits_def)

lemma nat_of_digits_digit_chars: "n < k \<Longrightarrow> nat_of_digits (digit_chars k n) = n"
proof (induction k arbitrary: n)
  case 0
  then show ?case by simp
next
  case (Suc k)
  show ?case
  proof (cases "n < 10")
    case True
    then show ?thesis by (simp add: nat_of_digits_def)
  next
    case False
    then have "n div 10 < k" using Suc.prems by simp
    then have "nat_of_digits (digit_chars k (n div 10)) = n div 10" by (rule Suc.IH)
    moreover have "(of_char (char_of (48 + n mod 10) :: char) :: nat) = 48 + n mod 10" by simp
    ultimately show ?thesis using False by (simp add: nat_of_digits_snoc)
  qed
qed

lemma str_of_nat_reads_back:
  "nat_of_digits (str_of_nat n) = n" "str_of_nat n \<noteq> []" "\<forall>c\<in>set (str_of_nat n). is_digit c"
proof -
  show "nat_of_digits (str_of_nat n) = n"
    unfolding str_of_nat_def by (rule nat_of_digits_digit_chars) simp
  show "str_of_nat n \<noteq> []" by (simp add: str_of_nat_def)
  show "\<forall>c\<in>set (str_of_nat n). is_digit c"
    unfolding str_of_nat_def using digit_chars_digits by blast
qed

lemma stated_count_header: "stated_count (group_header t n) = Some n"
proof -
  define P where "P = FOLDER @ '' ['' @ (if truthy t then (case t of Some x \<Rightarrow> x | None \<Rightarrow> SAME_MESSAGE)
                                        else SAME_MESSAGE)"
  define D where "D = str_of_nat n"
  define S where "S = rev ('' '' @ LOGS_SUFFIX)"
  have c: "rev (content (group_header t n)) = S @ rev D @ '' ]'' @ rev P"
    by (simp add: group_header_def P_def D_def S_def)
  have dg: "\<And>x. x \<in> set (rev D) \<Longrightarrow> is_digit x" using str_of_nat_reads_back(3) by (simp add: D_def)
  have sp: "\<not> is_digit (CHR '' '')" by (simp add: is_digit_def)
  have tw: "takeWhile is_digit (rev D @ '' ]'' @ rev P) = rev D"
    using takeWhile_append2[of "rev D" is_digit "'' ]'' @ rev P", OF dg] sp by simp
  have dw: "dropWhile is_digit (rev D @ '' ]'' @ rev P) = '' ]'' @ rev P"
    using dropWhile_append2[of "rev D" is_digit "'' ]'' @ rev P", OF dg] sp by simp
  have ne: "rev D \<noteq> []" using str_of_nat_reads_back(2) by (simp add: D_def)
  have "stated_count (group_header t n) = Some (nat_of_digits (rev (rev D)))"
    unfolding stated_count_def c S_def[symmetric] Let_def using tw dw ne by simp
  then show ?thesis using str_of_nat_reads_back(1) by (simp add: D_def)
qed

text \<open>
  C2. When no loaded line parses to a record tagged \<open>group_header\<close>, every group
  header of the display list is the header of a run of surviving lines (or of the
  empty group the loop starts from): its content states a count, the decimal number
  before the closing words, and that count is the length of the run; the records
  right after the header are the parsed records of the run, one for each member, and
  none of them is a group header.
\<close>

theorem header_counts_its_members:
  assumes "collapse_repeated_tags v"
    and "\<forall>l\<in>set (current_logs v). \<not> is_group_header (parsed U v l)"
    and "i < length (displayed U v)" and "is_group_header (displayed U v ! i)"
  shows "\<exists>run. (run = [] \<or> run \<in> set (runs_by (same_group U v) (survivors U v (current_logs v))))
           \<and> displayed U v ! i = group_header (run_tag U run) (length run)
           \<and> stated_count (displayed U v ! i) = Some (length run)
           \<and> take (length run) (drop (Suc i) (displayed U v)) = map (parsed U v) run
           \<and> list_all (\<lambda>m. \<not> is_group_header m) (map (parsed U v) run)"
proof -
  define runs where "runs = [] # runs_by (same_group U v) (survivors U v (current_logs v))"
  define bs where "bs = map (emit_run U v) runs"
  have d: "displayed U v = concat bs"
    by (simp add: bs_def runs_def displayed_eq filter_pass_collapsed[OF assms(1)])
  have clean: "\<forall>l\<in>set run. \<not> is_group_header (parsed U v l)" if "run \<in> set runs" for run
    using that assms(2) runs_by_subset[of run "same_group U v" "survivors U v (current_logs v)"]
    by (auto simp: survivors_def runs_def)
  have starts: "\<forall>b\<in>set bs. \<forall>k<length b. is_group_header (b ! k) \<longrightarrow> k = 0"
  proof (intro ballI allI impI)
    fix b k
    assume bk: "b \<in> set bs" "k < length b" "is_group_header (b ! k)"
    from bk(1) obtain run where r: "run \<in> set runs" "b = emit_run U v run"
      unfolding bs_def set_map by blast
    from emit_run_headers[OF clean[OF r(1)], of k] bk(2,3) r(2) show "k = 0" by simp
  qed
  have i: "i < length (concat bs)" and h: "is_group_header (concat bs ! i)"
    using assms(3,4) d by simp_all
  from concat_header_position[OF starts i h]
  obtain b where b: "b \<in> set bs" "b \<noteq> []" "concat bs ! i = hd b" "is_group_header (hd b)"
    "take (length b - 1) (drop (Suc i) (concat bs)) = tl b" by blast
  from b(1) obtain run where run: "run \<in> set runs" "b = emit_run U v run"
    unfolding bs_def set_map by blast
  have "is_group_header (b ! 0)" "0 < length b" using b(2,4) by (auto simp: hd_conv_nth)
  with emit_run_headers[OF clean[OF run(1)], of 0] run(2)
  have e: "b = group_header (run_tag U run) (length run) # map (parsed U v) run" by auto
  have "list_all (\<lambda>m. \<not> is_group_header m) (map (parsed U v) run)"
    using clean[OF run(1)] by (simp add: list_all_iff)
  moreover have "run = [] \<or> run \<in> set (runs_by (same_group U v) (survivors U v (current_logs v)))"
    using run(1) by (simp add: runs_def)
  moreover have hd: "displayed U v ! i = group_header (run_tag U run) (length run)"
    using b(3) e d by simp
  moreover have "stated_count (displayed U v ! i) = Some (length run)"
    unfolding hd by (rule stated_count_header)
  moreover have "take (length run) (drop (Suc i) (displayed U v)) = map (parsed U v) run"
    using b(5) e d by simp
  ultimately show ?thesis by blast
qed

theorem header_counts_its_members_witness:
  "collapse_repeated_tags levels_viewer
   \<and> list_all (\<lambda>l. \<not> is_group_header (parsed example_utils levels_viewer l)) (current_logs levels_viewer)
   \<and> 0 < length (displayed example_utils levels_viewer)
   \<and> is_group_header (displayed example_utils levels_viewer ! 0)
   \<and> (\<exists>run. (run = [] \<or> run \<in> set (runs_by (same_group example_utils levels_viewer)
                  (survivors example_utils levels_viewer (current_logs levels_viewer))))
           \<and> displayed example_utils levels_viewer ! 0
               = group_header (run_tag example_utils run) (length run)
           \<and> stated_count (displayed example_utils levels_viewer ! 0) = Some (length run)
           \<and> take (length run) (drop (Suc 0) (displayed example_utils levels_viewer))
               = map (parsed example_utils levels_viewer) run
           \<and> list_all (\<lambda>m. \<not> is_group_header m) (map (parsed example_utils levels_viewer) run))
   \<and> displayed example_utils levels_viewer ! 0 = group_header (Some ''Network'') 3
   \<and> stated_count (displayed example_utils levels_viewer ! 0) = Some 3
   \<and> length (displayed example_utils levels_viewer) = 6"
proof -
  have a: "collapse_repeated_tags levels_viewer" by code_simp
  have b: "list_all (\<lambda>l. \<not> is_group_header (parsed example_utils levels_viewer l)) (current_logs levels_viewer)"
    by code_simp
  have c: "0 < length (displayed example_utils levels_viewer)" by code_simp
  have d: "is_group_header (displayed example_utils levels_viewer ! 0)" by code_simp
  have e: "displayed example_utils levels_viewer ! 0 = group_header (Some ''Network'') 3" by code_simp
  have f: "length (displayed example_utils levels_viewer) = 6" by code_simp
  have g: "stated_count (displayed example_utils levels_viewer ! 0) = Some 3" by code_simp
  note t = header_counts_its_members[OF a b[unfolded list_all_iff] c d]
  show ?thesis by (intro conjI a b c d t e g f)
qed

section \<open>The group selector and the message panel\<close>

lemma sorted_py_sorted_reverse:
  "sorted_wrt (\<lambda>a b. f a \<ge> f b) (py_sorted_reverse f xs)"
proof -
  have "sorted (map f (sort_key f (rev xs)))" by simp
  then have "sorted_wrt (\<lambda>a b. f a \<le> f b) (sort_key f (rev xs))" by (simp only: sorted_map)
  then show ?thesis by (simp add: py_sorted_reverse_def sorted_wrt_rev)
qed

lemma mset_py_sorted_reverse: "mset (py_sorted_reverse f xs) = mset xs"
  by (simp add: py_sorted_reverse_def)

lemma stable_py_sorted_reverse:
  "filter (\<lambda>x. f x = k) (py_sorted_reverse f xs) = filter (\<lambda>x. f x = k) xs"
proof -
  have "filter (\<lambda>x. f x = k) (py_sorted_reverse f xs) = rev (filter (\<lambda>x. f x = k) (sort_key f (rev xs)))"
    by (simp add: py_sorted_reverse_def rev_filter)
  also have "\<dots> = rev (filter (\<lambda>x. f x = k) (rev xs))" by (simp only: sort_key_stable)
  also have "\<dots> = filter (\<lambda>x. f x = k) xs" by (simp add: rev_filter[symmetric])
  finally show ?thesis .
qed

text \<open>
  C8. The entries of the group selector after the heading follow \<open>sorted_groups\<close>,
  which holds the groups of the dictionary in descending order of message count; groups
  with the same count keep the order they have in the dictionary, the order in which
  they were first inserted.
\<close>

theorem group_list_order:
  "sorted_wrt (\<lambda>a b. message_count a \<ge> message_count b) (sorted_groups v)
   \<and> mset (sorted_groups v) = mset (groups v)
   \<and> (\<forall>k. filter (\<lambda>g. message_count g = k) (sorted_groups v)
           = filter (\<lambda>g. message_count g = k) (groups v))
   \<and> group_combo_values (widgets (update_group_list v)) = ALL_GROUPS # map group_entry (sorted_groups v)"
  by (simp add: sorted_groups_def sorted_py_sorted_reverse mset_py_sorted_reverse
      stable_py_sorted_reverse update_group_list_def Let_def)

theorem group_list_order_witness:
  "map fst (sorted_groups groups_viewer) = [''g2'', ''g4'', ''g1'', ''g3'']
   \<and> map fst (groups groups_viewer) = [''g1'', ''g2'', ''g3'', ''g4'']
   \<and> sorted_wrt (\<lambda>a b. message_count a \<ge> message_count b) (sorted_groups groups_viewer)
   \<and> mset (sorted_groups groups_viewer) = mset (groups groups_viewer)
   \<and> (\<forall>k. filter (\<lambda>g. message_count g = k) (sorted_groups groups_viewer)
           = filter (\<lambda>g. message_count g = k) (groups groups_viewer))
   \<and> group_combo_values (widgets (update_group_list groups_viewer))
       = ALL_GROUPS # map group_entry (sorted_groups groups_viewer)
   \<and> map group_entry (sorted_groups groups_viewer) = [''Two (2)'', ''Four (2)'', ''One (1)'', ''Three (1)'']"
proof -
  have a: "map fst (sorted_groups groups_viewer) = [''g2'', ''g4'', ''g1'', ''g3'']" by code_simp
  have b: "map fst (groups groups_viewer) = [''g1'', ''g2'', ''g3'', ''g4'']" by code_simp
  have c: "map group_entry (sorted_groups groups_viewer) = [''Two (2)'', ''Four (2)'', ''One (1)'', ''Three (1)'']"
    by code_simp
  from group_list_order[of groups_viewer] a b c show ?thesis by blast
qed



section \<open>Tail checks and incremental reads\<close>

lemma update_group_list_fields [simp]:
  "notifications (update_group_list v) = notifications v"
  "current_logs (update_group_list v) = current_logs v"
  "last_file_size (update_group_list v) = last_file_size v"
  "log_tree_logs (widgets (update_group_list v)) = log_tree_logs (widgets v)"
  by (simp_all add: update_group_list_def Let_def)

lemma append_load_fields:
  assumes "fs p = Some f" and "decoded f = Some text"
  shows "notifications (load_log_file U v fs p True c) = notifications v @ parse_notifications U []"
    and "current_logs (load_log_file U v fs p True c) = current_logs v @ drop (length (current_logs v)) (splitlines text)"
    and "last_file_size (load_log_file U v fs p True c) = st_size f"
    and "log_tree_logs (widgets (load_log_file U v fs p True c)) = log_tree_logs (widgets v)"
  using assms by (simp_all add: load_log_file_def Let_def)

lemma update_message_list_fields [simp]:
  "current_logs (update_message_list v) = current_logs v"
  "notifications (update_message_list v) = notifications v"
  "last_file_size (update_message_list v) = last_file_size v"
  "current_log_file (update_message_list v) = current_log_file v"
  "file_reads (update_message_list v) = file_reads v"
  by (simp_all add: update_message_list_def Let_def)

lemma apply_filter_fields [simp]:
  "current_logs (apply_filter U v) = current_logs v"
  "notifications (apply_filter U v) = notifications v"
  "last_file_size (apply_filter U v) = last_file_size v"
  "current_log_file (apply_filter U v) = current_log_file v"
  "file_reads (apply_filter U v) = file_reads v"
  by (simp_all add: apply_filter_def Let_def)

lemma update_group_list_more_fields [simp]:
  "current_log_file (update_group_list v) = current_log_file v"
  "file_reads (update_group_list v) = file_reads v"
  by (simp_all add: update_group_list_def Let_def)

lemma full_load_fields:
  assumes "fs p = Some f" and "decoded f = Some text"
    and "st_size f \<le> LARGE_FILE_THRESHOLD_MB U * (1024 * 1024)"
  shows "current_logs (load_log_file U v fs p False c) = splitlines text"
    and "notifications (load_log_file U v fs p False c) = parse_notifications U text"
    and "last_file_size (load_log_file U v fs p False c) = st_size f"
    and "current_log_file (load_log_file U v fs p False c) = Some p"
    and "file_reads (load_log_file U v fs p False c) = file_reads v + 1"
  using assms by (simp_all add: load_log_file_def Let_def)

lemma first_load:
  "first_fs ''output_log.txt'' = Some (file_of first_text)"
  "decoded (file_of first_text) = Some first_text"
  "st_size (file_of first_text) \<le> LARGE_FILE_THRESHOLD_MB example_utils * (1024 * 1024)"
  by (simp_all add: first_fs_def file_of_def first_text_def NL_def example_utils_def)

lemma tail_viewer_fields:
  "auto_update tail_viewer"
  "current_logs tail_viewer = splitlines first_text"
  "notifications tail_viewer = parse_notifications example_utils first_text"
  "last_file_size tail_viewer = st_size (file_of first_text)"
  "current_log_file tail_viewer = Some ''output_log.txt''"
  "file_reads tail_viewer = 1"
  using full_load_fields[of first_fs "''output_log.txt''" "file_of first_text" first_text
      example_utils new_viewer True, OF first_load]
  by (simp_all add: tail_viewer_def new_viewer_def)

lemma check_for_updates_changed:
  assumes "auto_update v" and "current_log_file v = Some p" and "fs p = Some f"
    and "st_size f \<noteq> last_file_size v"
  shows "check_for_updates U v fs = load_log_file U v fs p True False"
  using assms by (simp add: check_for_updates_def)

text \<open>
  C7. A tail check that finds the file at its last known size returns the viewer as it
  was: no read is counted, and the loaded lines, the notifications, the groups, the
  recorded size and the widgets are untouched.
\<close>

theorem same_size_is_noop:
  assumes "current_log_file v = Some p" and "fs p = Some f" and "st_size f = last_file_size v"
  shows "check_for_updates U v fs = v"
  using assms by (simp add: check_for_updates_def)

theorem same_size_is_noop_witness:
  "current_log_file tail_viewer = Some ''output_log.txt''
   \<and> first_fs ''output_log.txt'' = Some (file_of first_text)
   \<and> st_size (file_of first_text) = last_file_size tail_viewer
   \<and> check_for_updates example_utils tail_viewer first_fs = tail_viewer
   \<and> file_reads (check_for_updates example_utils tail_viewer first_fs) = 1"
proof -
  have a: "current_log_file tail_viewer = Some ''output_log.txt''" by (rule tail_viewer_fields)
  have b: "first_fs ''output_log.txt'' = Some (file_of first_text)" by (simp add: first_fs_def)
  have c: "st_size (file_of first_text) = last_file_size tail_viewer"
    by (simp add: tail_viewer_fields)
  note t = same_size_is_noop[of tail_viewer "''output_log.txt''" first_fs "file_of first_text" example_utils, OF a b c]
  have d: "file_reads (check_for_updates example_utils tail_viewer first_fs) = 1"
    unfolding t by (rule tail_viewer_fields)
  show ?thesis by (intro conjI a b c t d)
qed

text \<open>
  C1. What the code does on an incremental read: the text handed to
  \<open>parse_notifications\<close> is cut from the line list after \<open>current_logs\<close> has been
  extended, so it is always empty, and the notifications become the old ones followed
  by whatever the extractor finds in the empty string. The notifications of the
  appended text are not extracted.
\<close>

theorem append_read_extracts_nothing:
  assumes "fs p = Some f" and "decoded f = Some text"
  shows "notifications (load_log_file U v fs p True c) = notifications v @ parse_notifications U []"
  using assms by (rule append_load_fields(1))

theorem append_read_extracts_nothing_witness:
  "grown_fs ''output_log.txt'' = Some (file_of (first_text @ appended_text))
   \<and> decoded (file_of (first_text @ appended_text)) = Some (first_text @ appended_text)
   \<and> length (parse_notifications example_utils appended_text) = 1
   \<and> parse_notifications example_utils [] = []
   \<and> notifications (load_log_file example_utils tail_viewer grown_fs ''output_log.txt'' True False)
       = notifications tail_viewer @ parse_notifications example_utils []
   \<and> notifications (load_log_file example_utils tail_viewer grown_fs ''output_log.txt'' True False)
       = notifications tail_viewer"
proof -
  have a: "grown_fs ''output_log.txt'' = Some (file_of (first_text @ appended_text))"
    by (simp add: grown_fs_def)
  have b: "decoded (file_of (first_text @ appended_text)) = Some (first_text @ appended_text)"
    by (simp add: file_of_def)
  have c: "length (parse_notifications example_utils appended_text) = 1" by code_simp
  have d: "parse_notifications example_utils [] = []" by code_simp
  note t = append_read_extracts_nothing[of grown_fs "''output_log.txt''" "file_of (first_text @ appended_text)" "first_text @ appended_text" example_utils tail_viewer False, OF a b]
  have e: "notifications (load_log_file example_utils tail_viewer grown_fs ''output_log.txt'' True False)
       = notifications tail_viewer" unfolding t d by simp
  show ?thesis by (intro conjI a b c d t e)
qed

text \<open>
  C6, as amended. A tail check with auto-update on that finds the file smaller than its
  last known size performs an incremental read, \<open>load_log_file\<close> with \<open>append\<close> set,
  and no full reload: when the file can be read, the lines loaded before are kept, only
  lines of the file beyond their number are appended, and the recorded size becomes the
  current size.
\<close>

theorem shrunken_file_is_read_in_append_mode:
  assumes "auto_update v" and "current_log_file v = Some p" and "fs p = Some f"
    and "st_size f < last_file_size v"
  shows "check_for_updates U v fs = load_log_file U v fs p True False
     \<and> (\<forall>text. decoded f = Some text \<longrightarrow>
          current_logs (check_for_updates U v fs)
            = current_logs v @ drop (length (current_logs v)) (splitlines text)
          \<and> last_file_size (check_for_updates U v fs) = st_size f)"
proof -
  have c: "check_for_updates U v fs = load_log_file U v fs p True False"
    using assms by (simp add: check_for_updates_def)
  show ?thesis unfolding c
    using append_load_fields[of fs p f _ U v False] assms(3) by simp
qed

theorem shrunken_file_is_read_in_append_mode_witness:
  "auto_update tail_viewer
   \<and> current_log_file tail_viewer = Some ''output_log.txt''
   \<and> shrunk_fs ''output_log.txt'' = Some (file_of (''fresh'' @ NL))
   \<and> st_size (file_of (''fresh'' @ NL)) < last_file_size tail_viewer
   \<and> decoded (file_of (''fresh'' @ NL)) = Some (''fresh'' @ NL)
   \<and> check_for_updates example_utils tail_viewer shrunk_fs
       = load_log_file example_utils tail_viewer shrunk_fs ''output_log.txt'' True False
   \<and> current_logs (check_for_updates example_utils tail_viewer shrunk_fs)
       = current_logs tail_viewer @ drop (length (current_logs tail_viewer)) (splitlines (''fresh'' @ NL))
   \<and> last_file_size (check_for_updates example_utils tail_viewer shrunk_fs)
       = st_size (file_of (''fresh'' @ NL))"
proof -
  have a: "auto_update tail_viewer" by (rule tail_viewer_fields)
  have b: "current_log_file tail_viewer = Some ''output_log.txt''" by (rule tail_viewer_fields)
  have c: "shrunk_fs ''output_log.txt'' = Some (file_of (''fresh'' @ NL))" by (simp add: shrunk_fs_def)
  have d: "st_size (file_of (''fresh'' @ NL)) < last_file_size tail_viewer"
    by (simp add: tail_viewer_fields file_of_def first_text_def NL_def)
  have e: "decoded (file_of (''fresh'' @ NL)) = Some (''fresh'' @ NL)" by (simp add: file_of_def)
  note t = shrunken_file_is_read_in_append_mode[of tail_viewer "''output_log.txt''" shrunk_fs "file_of (''fresh'' @ NL)" example_utils, OF a b c d]
  note t1 = t[THEN conjunct1]
  note t2 = t[THEN conjunct2, rule_format, OF e]
  show ?thesis by (intro conjI a b c d e t1 t2[THEN conjunct1] t2[THEN conjunct2])
qed

text \<open>
  C6, as stated, fails: after a first load of three lines the file shrinks to one
  fresh line; the tail check keeps the three old lines, where a full reload would
  leave the single line of the file.
\<close>

theorem shrunken_file_counterexample:
  "auto_update tail_viewer
   \<and> current_log_file tail_viewer = Some ''output_log.txt''
   \<and> shrunk_fs ''output_log.txt'' = Some (file_of (''fresh'' @ NL))
   \<and> st_size (file_of (''fresh'' @ NL)) < last_file_size tail_viewer
   \<and> current_logs (check_for_updates example_utils tail_viewer shrunk_fs) = current_logs tail_viewer
   \<and> length (current_logs tail_viewer) = 3
   \<and> current_logs (load_log_file example_utils tail_viewer shrunk_fs ''output_log.txt'' False True)
       = [''fresh'' @ NL]
   \<and> check_for_updates example_utils tail_viewer shrunk_fs
       \<noteq> load_log_file example_utils tail_viewer shrunk_fs ''output_log.txt'' False True"
proof -
  have a: "auto_update tail_viewer" by (rule tail_viewer_fields)
  have b: "current_log_file tail_viewer = Some ''output_log.txt''" by (rule tail_viewer_fields)
  have c: "shrunk_fs ''output_log.txt'' = Some (file_of (''fresh'' @ NL))" by (simp add: shrunk_fs_def)
  have d: "st_size (file_of (''fresh'' @ NL)) < last_file_size tail_viewer"
    by (simp add: tail_viewer_fields file_of_def first_text_def NL_def)
  have dec: "decoded (file_of (''fresh'' @ NL)) = Some (''fresh'' @ NL)" by (simp add: file_of_def)
  have small: "st_size (file_of (''fresh'' @ NL)) \<le> LARGE_FILE_THRESHOLD_MB example_utils * (1024 * 1024)"
    by (simp add: file_of_def NL_def example_utils_def)
  have f: "length (current_logs tail_viewer) = 3"
    unfolding tail_viewer_fields by code_simp
  have sl: "splitlines (''fresh'' @ NL) = [''fresh'' @ NL]" by code_simp
  have ch: "check_for_updates example_utils tail_viewer shrunk_fs
      = load_log_file example_utils tail_viewer shrunk_fs ''output_log.txt'' True False"
    using d by (intro check_for_updates_changed[of tail_viewer "''output_log.txt''" shrunk_fs "file_of (''fresh'' @ NL)", OF a b c]) simp
  have e: "current_logs (check_for_updates example_utils tail_viewer shrunk_fs) = current_logs tail_viewer"
    unfolding ch append_load_fields(2)[of shrunk_fs "''output_log.txt''" "file_of (''fresh'' @ NL)" "''fresh'' @ NL", OF c dec] sl f by simp
  have g: "current_logs (load_log_file example_utils tail_viewer shrunk_fs ''output_log.txt'' False True)
       = [''fresh'' @ NL]"
    unfolding full_load_fields(1)[of shrunk_fs "''output_log.txt''" "file_of (''fresh'' @ NL)" "''fresh'' @ NL" example_utils tail_viewer True, OF c dec small] sl by simp
  have ne: "length (current_logs (check_for_updates example_utils tail_viewer shrunk_fs))
      \<noteq> length (current_logs (load_log_file example_utils tail_viewer shrunk_fs ''output_log.txt'' False True))"
    unfolding e f g by simp
  have h: "check_for_updates example_utils tail_viewer shrunk_fs
       \<noteq> load_log_file example_utils tail_viewer shrunk_fs ''output_log.txt'' False True"
  proof
    assume "check_for_updates example_utils tail_viewer shrunk_fs
       = load_log_file example_utils tail_viewer shrunk_fs ''output_log.txt'' False True"
    then have "length (current_logs (check_for_updates example_utils tail_viewer shrunk_fs))
      = length (current_logs (load_log_file example_utils tail_viewer shrunk_fs ''output_log.txt'' False True))"
      by (rule arg_cong[where f = "\<lambda>x. length (current_logs x)"])
    with ne show False by contradiction
  qed
  show ?thesis by (intro conjI a b c d e f g h)
qed

end
